theory Spec2Isabelle
  imports Complex_Main "HOL-Library.Sublist"
begin

section \<open>Common types\<close>

text \<open>Paths and patterns are strings. Every Python exception is a value of \<open>error\<close>;
  the argument is the message, which no caller inspects.\<close>

type_synonym path = string

datatype error = Exception string

section \<open>pipeline/ocr\_module.py: the page extractor\<close>

text \<open>One entry of \<open>boxes\<close> in \<open>process_image\<close>: the dict with the keys
  text, conf, left, top, width, height.\<close>

record box =
  box_text :: string
  box_conf :: real
  box_left :: int
  box_top :: int
  box_width :: int
  box_height :: int

text \<open>The dataclass \<open>OCRResult\<close>.\<close>

record OCRResult =
  ocr_text :: string
  confidence :: real
  language :: string
  page_number :: "nat option"
  bounding_boxes :: "box list option"

text \<open>The dict that \<open>pytesseract.image_to_data\<close> returns with \<open>Output.DICT\<close>:
  parallel lists, one position per detected token.\<close>

record ocr_data =
  data_conf :: "real list"
  data_text :: "string list"
  data_left :: "int list"
  data_top :: "int list"
  data_width :: "int list"
  data_height :: "int list"

text \<open>Python's \<open>xs[i]\<close> for \<open>i \<ge> 0\<close>: IndexError out of range.\<close>

definition index :: "'a list \<Rightarrow> nat \<Rightarrow> error + 'a" where
  "index xs i = (if i < length xs then Inr (xs ! i) else Inl (Exception ''IndexError''))"

text \<open>Python's \<open>sep.join(parts)\<close>.\<close>

fun join :: "string \<Rightarrow> string list \<Rightarrow> string" where
  "join sep [] = []"
| "join sep [x] = x"
| "join sep (x # y # ys) = x @ sep @ join sep (y # ys)"

text \<open>Confidences are the doubles of the program, read as the real numbers they
  denote; comparing two of them is exact. \<open>np.mean\<close> belongs to NumPy: it is a
  parameter \<open>np_mean\<close> of the functions that call it, and nothing is assumed of the
  double it returns.\<close>

text \<open>The body of the loop \<open>for i, conf in enumerate(ocr_data['conf'])\<close>, on the
  accumulators \<open>(text_parts, confidences, boxes)\<close>. A list shorter than
  \<open>ocr_data['conf']\<close> raises IndexError at the first retained position beyond it.\<close>

fun collect_tokens ::
  "real \<Rightarrow> ocr_data \<Rightarrow> (nat \<times> real) list \<Rightarrow> string list \<times> real list \<times> box list
    \<Rightarrow> error + string list \<times> real list \<times> box list" where
  "collect_tokens confidence_threshold d [] acc = Inr acc"
| "collect_tokens confidence_threshold d ((i, conf) # rest) (text_parts, confidences, boxes) =
     (if conf > confidence_threshold then
        (case index (data_text d) i of Inl e \<Rightarrow> Inl e | Inr t \<Rightarrow>
        (case index (data_left d) i of Inl e \<Rightarrow> Inl e | Inr l \<Rightarrow>
        (case index (data_top d) i of Inl e \<Rightarrow> Inl e | Inr tp \<Rightarrow>
        (case index (data_width d) i of Inl e \<Rightarrow> Inl e | Inr w \<Rightarrow>
        (case index (data_height d) i of Inl e \<Rightarrow> Inl e | Inr h \<Rightarrow>
           collect_tokens confidence_threshold d rest
             (text_parts @ [t], confidences @ [conf],
              boxes @ [\<lparr>box_text = t, box_conf = conf, box_left = l, box_top = tp,
                        box_width = w, box_height = h\<rparr>]))))))
      else collect_tokens confidence_threshold d rest (text_parts, confidences, boxes))"

text \<open>\<open>OCRProcessor.process_image\<close>. The argument \<open>ocr\<close> is the outcome of loading the
  image, preprocessing it and running \<open>pytesseract.image_to_data\<close>: \<open>Inl\<close> when one
  of them raises. Every exception is caught and becomes \<open>None\<close>.\<close>

definition process_image ::
  "(real list \<Rightarrow> real) \<Rightarrow> real \<Rightarrow> string \<Rightarrow> error + ocr_data \<Rightarrow> OCRResult option" where
  "process_image np_mean confidence_threshold languages ocr =
     (case ocr of
        Inl e \<Rightarrow> None
      | Inr d \<Rightarrow>
          (case collect_tokens confidence_threshold d (enumerate 0 (data_conf d)) ([], [], []) of
             Inl e \<Rightarrow> None
           | Inr (text_parts, confidences, boxes) \<Rightarrow>
               Some \<lparr>ocr_text = join '' '' text_parts,
                     confidence = (if confidences \<noteq> [] then np_mean confidences else 0),
                     language = languages,
                     page_number = None,
                     bounding_boxes = Some boxes\<rparr>))"

text \<open>The dict that the OCR engine returns for a sequence of detected tokens.\<close>

definition ocr_data_of :: "box list \<Rightarrow> ocr_data" where
  "ocr_data_of toks =
     \<lparr>data_conf = map box_conf toks, data_text = map box_text toks,
      data_left = map box_left toks, data_top = map box_top toks,
      data_width = map box_width toks, data_height = map box_height toks\<rparr>"

text \<open>The tokens that survive a threshold, as the specification words it.\<close>

definition retained :: "real \<Rightarrow> box list \<Rightarrow> box list" where
  "retained t toks = filter (\<lambda>b. t < box_conf b) toks"

text \<open>The mean without rounding. \<open>np.mean\<close> returns it wherever neither the sum nor
  the quotient is rounded, as on the whole numbers of the examples below.\<close>

definition exact_mean :: "real list \<Rightarrow> real" where
  "exact_mean xs = sum_list xs / real (length xs)"

definition tok :: "string \<Rightarrow> real \<Rightarrow> box" where
  "tok s c = \<lparr>box_text = s, box_conf = c, box_left = 0, box_top = 0, box_width = 0, box_height = 0\<rparr>"

section \<open>pipeline/ocr\_module.py: PDF documents\<close>

text \<open>One rasterised page of a PDF: whether \<open>image.save\<close> raises on it, and the outcome
  of the OCR stage on the saved file.\<close>

record page_image =
  save_error :: "error option"
  page_ocr :: "error + ocr_data"

text \<open>\<open>OCRProcessor._process_pdf_page\<close>: an \<open>OCRResult\<close> object is always truthy.\<close>

definition process_pdf_page ::
  "(real list \<Rightarrow> real) \<Rightarrow> real \<Rightarrow> string \<Rightarrow> error + ocr_data \<Rightarrow> nat
    \<Rightarrow> OCRResult option" where
  "process_pdf_page np_mean confidence_threshold languages ocr page_no =
     (case process_image np_mean confidence_threshold languages ocr of
        None \<Rightarrow> None
      | Some result \<Rightarrow> Some (result\<lparr>page_number := Some page_no\<rparr>))"

text \<open>The thread pool. The futures are numbered by submission; a future that has
  completed holds the value its task returned. The workers complete the tasks in the
  order of a schedule, which the program does not control.\<close>

type_synonym futures = "nat \<rightharpoonup> OCRResult option"

fun run_workers ::
  "(real list \<Rightarrow> real) \<Rightarrow> real \<Rightarrow> string \<Rightarrow> (nat \<times> page_image) list \<Rightarrow> nat list
    \<Rightarrow> futures \<Rightarrow> futures" where
  "run_workers np_mean confidence_threshold languages tasks [] completed = completed"
| "run_workers np_mean confidence_threshold languages tasks (i # schedule) completed =
     run_workers np_mean confidence_threshold languages tasks schedule
       (case map_of tasks i of
          None \<Rightarrow> completed
        | Some img \<Rightarrow>
            completed(i \<mapsto>
              process_pdf_page np_mean confidence_threshold languages (page_ocr img) i))"

text \<open>The loop \<open>for future in futures: result = future.result()\<close>, in the order of the
  list \<open>futures\<close>. \<open>future.result()\<close> waits for the future to complete: the loop returns
  \<open>None\<close> when it waits for a future that never completes.\<close>

fun collect_results :: "futures \<Rightarrow> nat list \<Rightarrow> OCRResult list \<Rightarrow> OCRResult list option" where
  "collect_results completed [] results = Some results"
| "collect_results completed (i # rest) results =
     (case completed i of
        None \<Rightarrow> None
      | Some None \<Rightarrow> collect_results completed rest results
      | Some (Some result) \<Rightarrow> collect_results completed rest (results @ [result]))"

text \<open>\<open>OCRProcessor.process_pdf\<close>. The argument \<open>pdf\<close> is the outcome of
  \<open>pdf2image.convert_from_path\<close>. Every exception is caught and becomes the empty
  list.\<close>

definition process_pdf ::
  "(real list \<Rightarrow> real) \<Rightarrow> real \<Rightarrow> string \<Rightarrow> error + page_image list \<Rightarrow> nat list
    \<Rightarrow> OCRResult list option" where
  "process_pdf np_mean confidence_threshold languages pdf schedule =
     (case pdf of
        Inl e \<Rightarrow> Some []
      | Inr images \<Rightarrow>
          if list_ex (\<lambda>img. save_error img \<noteq> None) images then Some []
          else
            (let tasks = enumerate 0 images;
                 completed =
                   run_workers np_mean confidence_threshold languages tasks schedule Map.empty
             in collect_results completed (map fst tasks) []))"

text \<open>The pages on which the page extractor succeeds, with their positions, in document
  order.\<close>

definition successful_pages ::
  "(real list \<Rightarrow> real) \<Rightarrow> real \<Rightarrow> string \<Rightarrow> nat \<Rightarrow> page_image list
    \<Rightarrow> (nat \<times> OCRResult) list" where
  "successful_pages np_mean t lang n images =
     concat (map (\<lambda>(i, img). case process_image np_mean t lang (page_ocr img) of
                                None \<Rightarrow> [] | Some r \<Rightarrow> [(i, r)])
                 (enumerate n images))"

definition page_of :: "box list \<Rightarrow> page_image" where
  "page_of toks = \<lparr>save_error = None, page_ocr = Inr (ocr_data_of toks)\<rparr>"

definition failed_page :: page_image where
  "failed_page = \<lparr>save_error = None, page_ocr = Inl (Exception ''corrupt image'')\<rparr>"

section \<open>pipeline/ocr\_module.py: files, with the text-layer fallback\<close>

text \<open>Python's \<open>str.lower\<close> on ASCII letters and \<open>str.endswith\<close>.\<close>

definition lower_char :: "char \<Rightarrow> char" where
  "lower_char c =
     (let n = (of_char c :: nat) in if 65 \<le> n \<and> n \<le> 90 then char_of (n + 32) else c)"

definition lower :: "string \<Rightarrow> string" where
  "lower s = map lower_char s"

definition endswith :: "string \<Rightarrow> string \<Rightarrow> bool" where
  "endswith s suf =
     (length suf \<le> length s \<and> drop (length s - length suf) s = suf)"

text \<open>The expression \<open>"\\n".join(page.extract_text() for page in pdf.pages)\<close>:
  \<open>extract_text\<close> returns \<open>None\<close> for a page without text, and \<open>join\<close> raises
  TypeError on it.\<close>

definition join_pages :: "string option list \<Rightarrow> error + string" where
  "join_pages pages =
     (if list_all (\<lambda>t. t \<noteq> None) pages then Inr (join [CHR 0x0A] (map the pages))
      else Inl (Exception ''TypeError''))"

text \<open>The fallback of \<open>process_file\<close>. The argument \<open>text_layer\<close> is the outcome of
  \<open>pdfplumber.open\<close> and of \<open>extract_text\<close> on each page.\<close>

definition extract_text_layer :: "error + string option list \<Rightarrow> error + string" where
  "extract_text_layer text_layer =
     (case text_layer of Inl pdf_error \<Rightarrow> Inl pdf_error | Inr pages \<Rightarrow> join_pages pages)"

text \<open>The call \<open>super().process_file(file_path, **kwargs)\<close>. The class statement
  \<open>class OCRProcessor:\<close> names no base class and the repository defines no subclass of
  it, so \<open>super()\<close> stands for \<open>object\<close>, which has no attribute \<open>process_file\<close>:
  the call raises AttributeError, whatever the file, before any OCR is run.\<close>

definition super_process_file :: "path \<Rightarrow> error + string option" where
  "super_process_file file_path = Inl (Exception ''AttributeError'')"

text \<open>\<open>OCRProcessor.process_file\<close>.\<close>

definition process_file :: "path \<Rightarrow> error + string option list \<Rightarrow> string option" where
  "process_file file_path text_layer =
     (case super_process_file file_path of
        Inr r \<Rightarrow> r
      | Inl e \<Rightarrow>
          if endswith (lower file_path) ''.pdf'' then
            (case extract_text_layer text_layer of
               Inr t \<Rightarrow> Some t
             | Inl pdf_error \<Rightarrow> None)
          else None)"

section \<open>cli/cli.py: the process command\<close>

text \<open>What \<open>process\<close> reads from the file system through \<open>pathlib\<close>. \<open>is_file\<close>,
  \<open>is_dir\<close> and \<open>glob\<close> raise on an operating-system error other than a missing
  path; \<open>parent\<close> is computed from the path alone.\<close>

record filesystem =
  is_file :: "path \<Rightarrow> error + bool"
  is_dir :: "path \<Rightarrow> error + bool"
  glob :: "path \<Rightarrow> string \<Rightarrow> error + path list"
  parent :: "path \<Rightarrow> path"

text \<open>The archivist, over a store of type \<open>'s\<close>. Its code is not part of the sources;
  the signatures are those of section 6 of the specification: the query returns the
  recorded paths, \<open>ingest\<close> and \<open>retire\<close> may fail. A call that raises returns the
  exception beside the store it leaves.\<close>

record 's archivist =
  get_documents_in_directory :: "'s \<Rightarrow> path \<Rightarrow> bool \<Rightarrow> path list"
  remove_document :: "path \<Rightarrow> 's \<Rightarrow> error option \<times> 's"
  ingest_file :: "path \<Rightarrow> 's \<Rightarrow> error option \<times> 's"

text \<open>The calls that a command makes on the archivist, in order.\<close>

datatype call = RemoveDocument path | IngestFile path

definition glob_pattern :: "bool \<Rightarrow> string" where
  "glob_pattern recursive = (if recursive then ''**/*'' else ''*'')"

text \<open>The inner loop \<open>for file_path in path.glob(glob_pattern)\<close>, on the accumulators
  \<open>(current_files, files_to_process)\<close>.\<close>

fun scan_dir ::
  "filesystem \<Rightarrow> (path \<Rightarrow> bool) \<Rightarrow> path list \<Rightarrow> path set \<times> path list
    \<Rightarrow> error + path set \<times> path list" where
  "scan_dir fs should_process_file [] acc = Inr acc"
| "scan_dir fs should_process_file (file_path # rest) (current_files, files_to_process) =
     (case is_file fs file_path of
        Inl e \<Rightarrow> Inl e
      | Inr b \<Rightarrow>
          if b \<and> should_process_file file_path
          then scan_dir fs should_process_file rest
                 (insert file_path current_files, files_to_process @ [file_path])
          else scan_dir fs should_process_file rest (current_files, files_to_process))"

text \<open>The first loop \<open>for path in paths\<close>.\<close>

fun scan_paths ::
  "filesystem \<Rightarrow> (path \<Rightarrow> bool) \<Rightarrow> bool \<Rightarrow> path list \<Rightarrow> path set \<times> path list
    \<Rightarrow> error + path set \<times> path list" where
  "scan_paths fs should_process_file recursive [] acc = Inr acc"
| "scan_paths fs should_process_file recursive (p # rest) (current_files, files_to_process) =
     (case is_file fs p of
        Inl e \<Rightarrow> Inl e
      | Inr f \<Rightarrow>
          if f then
            if should_process_file p
            then scan_paths fs should_process_file recursive rest
                   (insert p current_files, files_to_process @ [p])
            else scan_paths fs should_process_file recursive rest
                   (current_files, files_to_process)
          else
            (case is_dir fs p of
               Inl e \<Rightarrow> Inl e
             | Inr d \<Rightarrow>
                 if d then
                   (case glob fs p (glob_pattern recursive) of
                      Inl e \<Rightarrow> Inl e
                    | Inr entries \<Rightarrow>
                        (case scan_dir fs should_process_file entries
                                (current_files, files_to_process) of
                           Inl e \<Rightarrow> Inl e
                         | Inr acc \<Rightarrow> scan_paths fs should_process_file recursive rest acc))
                 else scan_paths fs should_process_file recursive rest
                        (current_files, files_to_process)))"

text \<open>The second loop \<open>for path in paths\<close>, on the accumulator \<open>previous_files\<close>.\<close>

fun query_previous ::
  "filesystem \<Rightarrow> 's archivist \<Rightarrow> 's \<Rightarrow> bool \<Rightarrow> path list \<Rightarrow> path set \<Rightarrow> error + path set" where
  "query_previous fs a s recursive [] previous_files = Inr previous_files"
| "query_previous fs a s recursive (p # rest) previous_files =
     (case is_dir fs p of
        Inl e \<Rightarrow> Inl e
      | Inr d \<Rightarrow>
          (let base_path = (if d then p else parent fs p);
               docs = get_documents_in_directory a s base_path recursive
           in query_previous fs a s recursive rest (previous_files \<union> set docs)))"

text \<open>The plan that \<open>process\<close> computes before it acts: \<open>to_process\<close> is the list
  \<open>files_to_process\<close>, \<open>to_retire\<close> the set \<open>deleted_files\<close>.\<close>

record ReconciliationPlan =
  to_process :: "path list"
  to_retire :: "path set"
  current :: "path set"
  previous :: "path set"

definition process_plan ::
  "filesystem \<Rightarrow> (path \<Rightarrow> bool) \<Rightarrow> 's archivist \<Rightarrow> 's \<Rightarrow> path list \<Rightarrow> bool
    \<Rightarrow> error + ReconciliationPlan" where
  "process_plan fs should_process_file a s paths recursive =
     (case scan_paths fs should_process_file recursive paths ({}, []) of
        Inl e \<Rightarrow> Inl e
      | Inr (current_files, files_to_process) \<Rightarrow>
          (case query_previous fs a s recursive paths {} of
             Inl e \<Rightarrow> Inl e
           | Inr previous_files \<Rightarrow>
               Inr \<lparr>to_process = files_to_process,
                    to_retire = previous_files - current_files,
                    current = current_files,
                    previous = previous_files\<rparr>))"

text \<open>The loops \<open>for file in deleted_files: cli.archivist.remove_document(file)\<close> and
  \<open>for file in files_to_process: cli.archivist.ingest_file(file)\<close>: the first
  exception ends the loop.\<close>

fun remove_all ::
  "'s archivist \<Rightarrow> path list \<Rightarrow> 's \<Rightarrow> call list \<Rightarrow> error option \<times> 's \<times> call list" where
  "remove_all a [] s calls = (None, s, calls)"
| "remove_all a (file # rest) s calls =
     (case remove_document a file s of
        (Some e, s') \<Rightarrow> (Some e, s', calls @ [RemoveDocument file])
      | (None, s') \<Rightarrow> remove_all a rest s' (calls @ [RemoveDocument file]))"

fun ingest_all ::
  "'s archivist \<Rightarrow> path list \<Rightarrow> 's \<Rightarrow> call list \<Rightarrow> error option \<times> 's \<times> call list" where
  "ingest_all a [] s calls = (None, s, calls)"
| "ingest_all a (file # rest) s calls =
     (case ingest_file a file s of
        (Some e, s') \<Rightarrow> (Some e, s', calls @ [IngestFile file])
      | (None, s') \<Rightarrow> ingest_all a rest s' (calls @ [IngestFile file]))"

text \<open>How the command ends: the early return on no change, the return of a dry run,
  the normal end, or \<open>click.Abort\<close> after any exception.\<close>

datatype outcome = NoChanges | DryRun | Completed | Abort

text \<open>The command \<open>process\<close>: its outcome, the store it leaves and the calls it made on
  the archivist. \<open>iter\<close> is the order in which the interpreter iterates the set
  \<open>deleted_files\<close>, which Python leaves open. The messages on the console are left
  out.\<close>

definition process ::
  "filesystem \<Rightarrow> (path \<Rightarrow> bool) \<Rightarrow> 's archivist \<Rightarrow> (path set \<Rightarrow> path list) \<Rightarrow> path list
    \<Rightarrow> bool \<Rightarrow> bool \<Rightarrow> 's \<Rightarrow> outcome \<times> 's \<times> call list" where
  "process fs should_process_file a iter paths recursive dry_run s =
     (case process_plan fs should_process_file a s paths recursive of
        Inl e \<Rightarrow> (Abort, s, [])
      | Inr plan \<Rightarrow>
          if to_process plan = [] \<and> to_retire plan = {} then (NoChanges, s, [])
          else if dry_run then (DryRun, s, [])
          else
            (case remove_all a (iter (to_retire plan)) s [] of
               (Some e, s', calls) \<Rightarrow> (Abort, s', calls)
             | (None, s', calls) \<Rightarrow>
                 (case ingest_all a (to_process plan) s' calls of
                    (Some e, s'', calls') \<Rightarrow> (Abort, s'', calls')
                  | (None, s'', calls') \<Rightarrow> (Completed, s'', calls'))))"

subsection \<open>The reconciler of the specification\<close>

text \<open>Step (a) of section 4.4: the candidates under one root, in enumeration order. A
  root that is a file is a candidate when the classifier accepts it; under a root that
  is a directory the candidates are the enumerated regular files that the classifier
  accepts.\<close>

definition candidates :: "filesystem \<Rightarrow> (path \<Rightarrow> bool) \<Rightarrow> bool \<Rightarrow> path \<Rightarrow> path list" where
  "candidates fs should_process recursive root_path =
     (if is_file fs root_path = Inr True then
        (if should_process root_path then [root_path] else [])
      else if is_dir fs root_path = Inr True then
        (case glob fs root_path (glob_pattern recursive) of
           Inr entries \<Rightarrow> filter (\<lambda>f. is_file fs f = Inr True \<and> should_process f) entries
         | Inl e \<Rightarrow> [])
      else [])"

text \<open>The directory under which the code queries the store for a root.\<close>

definition base_path :: "filesystem \<Rightarrow> path \<Rightarrow> path" where
  "base_path fs root_path =
     (if is_dir fs root_path = Inr True then root_path else parent fs root_path)"

text \<open>A root whose enumeration raises.\<close>

definition enumeration_fails :: "filesystem \<Rightarrow> bool \<Rightarrow> path \<Rightarrow> bool" where
  "enumeration_fails fs recursive root_path =
     (case is_file fs root_path of
        Inl e \<Rightarrow> True
      | Inr f \<Rightarrow> \<not> f \<and>
          (case is_dir fs root_path of
             Inl e \<Rightarrow> True
           | Inr d \<Rightarrow> d \<and>
               (case glob fs root_path (glob_pattern recursive) of
                  Inl e \<Rightarrow> True
                | Inr entries \<Rightarrow> list_ex (\<lambda>f. isl (is_file fs f)) entries)))"

subsection \<open>An example scope\<close>

text \<open>A directory \<open>docs\<close> with the files \<open>a.pdf\<close> and \<open>b.png\<close>, and a directory
  \<open>locked\<close> whose listing raises. The example store is the list of the recorded
  paths; the example classifier accepts every file.\<close>

definition example_fs :: filesystem where
  "example_fs =
     \<lparr>is_file = (\<lambda>p. Inr (p = ''docs/a.pdf'' \<or> p = ''docs/b.png'')),
      is_dir = (\<lambda>p. Inr (p = ''docs'' \<or> p = ''locked'')),
      glob = (\<lambda>p pattern.
        if p = ''docs'' then Inr [''docs/a.pdf'', ''docs/b.png'']
        else Inl (Exception ''OSError'')),
      parent = (\<lambda>p.
        if p = ''docs/a.pdf'' \<or> p = ''docs/b.png'' \<or> p = ''docs/c.txt'' then ''docs''
        else ''.'')\<rparr>"

definition example_archivist :: "path list archivist" where
  "example_archivist =
     \<lparr>get_documents_in_directory =
        (\<lambda>s base recursive. filter (\<lambda>doc. parent example_fs doc = base) s),
      remove_document = (\<lambda>file s. (None, removeAll file s)),
      ingest_file = (\<lambda>file s. (None, if file \<in> set s then s else s @ [file]))\<rparr>"

definition example_iter :: "path set \<Rightarrow> path list" where
  "example_iter S = filter (\<lambda>p. p \<in> S) [''docs/a.pdf'', ''docs/b.png'', ''docs/c.txt'']"

definition accept_all :: "path \<Rightarrow> bool" where
  "accept_all p = True"

section \<open>cli/cli.py: the handler of the watch command\<close>

text \<open>\<open>WatcherEvent\<close>, as \<open>handle_event\<close> reads it.\<close>

record WatcherEvent =
  event_type :: string
  event_path :: path
  is_directory :: bool

text \<open>The expression \<open>any(event.path.match(pattern) for pattern in ...)\<close>.
  \<open>path_match p pattern\<close> is \<open>Path.match\<close>, which raises ValueError on an empty
  pattern; \<open>any\<close> stops at the first match and at the first exception.\<close>

fun any_match :: "(path \<Rightarrow> string \<Rightarrow> error + bool) \<Rightarrow> path \<Rightarrow> string list \<Rightarrow> error + bool" where
  "any_match path_match p [] = Inr False"
| "any_match path_match p (pattern # rest) =
     (case path_match p pattern of
        Inl e \<Rightarrow> Inl e
      | Inr m \<Rightarrow> if m then Inr True else any_match path_match p rest)"

text \<open>\<open>handle_event\<close>, the callback of \<open>watch\<close>: the store it leaves and the calls it
  made on the archivist. \<open>excluded_patterns\<close> is the configured list
  \<open>processing.excluded_patterns\<close>. Every exception is caught and printed: one raised
  by \<open>Path.match\<close> drops the event, one raised by the archivist changes the result no
  further.\<close>

definition handle_event ::
  "'s archivist \<Rightarrow> (path \<Rightarrow> string \<Rightarrow> error + bool) \<Rightarrow> string list \<Rightarrow> WatcherEvent \<Rightarrow> 's
    \<Rightarrow> 's \<times> call list" where
  "handle_event a path_match excluded_patterns event s =
     (if event_type event \<in> set [''created'', ''modified''] then
        if is_directory event then (s, [])
        else
          (case any_match path_match (event_path event) excluded_patterns of
             Inl e \<Rightarrow> (s, [])
           | Inr excluded \<Rightarrow>
               if excluded then (s, [])
               else (snd (ingest_file a (event_path event) s),
                     [IngestFile (event_path event)]))
      else if event_type event = ''deleted'' then
        if is_directory event then (s, [])
        else (snd (remove_document a (event_path event) s), [RemoveDocument (event_path event)])
      else (s, []))"

text \<open>An example of \<open>Path.match\<close>, for the one pattern \<open>*.tmp\<close>.\<close>

definition example_match :: "path \<Rightarrow> string \<Rightarrow> error + bool" where
  "example_match p pattern =
     (if pattern = [] then Inl (Exception ''ValueError'')
      else Inr (pattern = ''*.tmp'' \<and> endswith p ''.tmp''))"

section \<open>Properties of the page extractor\<close>

lemma collect_tokens_of_tokens:
  "collect_tokens t (ocr_data_of (pre @ suf)) (enumerate (length pre) (map box_conf suf))
     (tp, cs, bs) =
   Inr (tp @ map box_text (retained t suf), cs @ map box_conf (retained t suf),
        bs @ retained t suf)"
proof (induction suf arbitrary: pre tp cs bs)
  case Nil
  then show ?case by (simp add: retained_def)
next
  case (Cons b suf)
  have step: "collect_tokens t (ocr_data_of ((pre @ [b]) @ suf))
      (enumerate (length (pre @ [b])) (map box_conf suf)) (tp', cs', bs') =
    Inr (tp' @ map box_text (retained t suf), cs' @ map box_conf (retained t suf),
         bs' @ retained t suf)" for tp' cs' bs'
    by (rule Cons.IH)
  let ?d = "ocr_data_of (pre @ b # suf)"
  have ix: "index (data_text ?d) (length pre) = Inr (box_text b)"
    "index (data_left ?d) (length pre) = Inr (box_left b)"
    "index (data_top ?d) (length pre) = Inr (box_top b)"
    "index (data_width ?d) (length pre) = Inr (box_width b)"
    "index (data_height ?d) (length pre) = Inr (box_height b)"
    by (simp_all add: index_def ocr_data_of_def nth_append)
  have b: "\<lparr>box_text = box_text b, box_conf = box_conf b, box_left = box_left b,
      box_top = box_top b, box_width = box_width b, box_height = box_height b\<rparr> = b"
    by simp
  show ?case
  proof (cases "t < box_conf b")
    case True
    with step [of "tp @ [box_text b]" "cs @ [box_conf b]" "bs @ [b]"] show ?thesis
      by (simp add: ix b retained_def)
  next
    case False
    with step [of tp cs bs] show ?thesis
      by (simp add: retained_def)
  qed
qed

lemma process_image_of_tokens:
  "process_image np_mean t lang (Inr (ocr_data_of toks)) =
     Some \<lparr>ocr_text = join '' '' (map box_text (retained t toks)),
           confidence = (if retained t toks = [] then 0
                         else np_mean (map box_conf (retained t toks))),
           language = lang, page_number = None,
           bounding_boxes = Some (retained t toks)\<rparr>"
proof -
  have "collect_tokens t (ocr_data_of ([] @ toks)) (enumerate (length ([] :: box list)) (map box_conf toks))
     ([], [], []) =
   Inr ([] @ map box_text (retained t toks), [] @ map box_conf (retained t toks),
        [] @ retained t toks)"
    by (rule collect_tokens_of_tokens)
  then have "collect_tokens t (ocr_data_of toks) (enumerate 0 (data_conf (ocr_data_of toks))) ([], [], [])
    = Inr (map box_text (retained t toks), map box_conf (retained t toks), retained t toks)"
    by (simp add: ocr_data_of_def)
  then show ?thesis
    by (simp add: process_image_def)
qed




text \<open>C9. For thresholds \<open>t1 \<le> t2\<close> and a fixed sequence of tokens, the tokens retained
  at \<open>t2\<close> are a subsequence (so a subset, and no more in number) of those retained at
  \<open>t1\<close>, every token retained at \<open>t2\<close> has confidence strictly greater than \<open>t2\<close>, and
  the result text is made of exactly these tokens.\<close>

theorem process_image_threshold_monotone:
  "t1 \<le> t2 \<Longrightarrow>
   \<exists>r1 r2 b1 b2.
     process_image np_mean t1 lang (Inr (ocr_data_of toks)) = Some r1
   \<and> process_image np_mean t2 lang (Inr (ocr_data_of toks)) = Some r2
   \<and> bounding_boxes r1 = Some b1 \<and> bounding_boxes r2 = Some b2
   \<and> subseq b2 b1 \<and> set b2 \<subseteq> set b1 \<and> length b2 \<le> length b1
   \<and> (\<forall>b \<in> set b2. t2 < box_conf b)
   \<and> ocr_text r2 = join '' '' (map box_text b2)"
proof -
  assume le: "t1 \<le> t2"
  have eq: "retained t2 toks = filter (\<lambda>b. t2 < box_conf b) (retained t1 toks)"
    using le by (auto simp: retained_def intro: filter_cong)
  have sub: "subseq (retained t2 toks) (retained t1 toks)"
    unfolding eq by (rule subseq_filter_left)
  have set: "set (retained t2 toks) \<subseteq> set (retained t1 toks)"
    unfolding eq by simp
  have len: "length (retained t2 toks) \<le> length (retained t1 toks)"
    unfolding eq by (rule length_filter_le)
  have above: "\<forall>b \<in> set (retained t2 toks). t2 < box_conf b"
    by (simp add: retained_def)
  show ?thesis
    using sub set len above by (simp add: process_image_of_tokens)
qed

theorem process_image_threshold_monotone_witness:
  "(50::real) \<le> 60 \<and>
   (\<exists>r1 r2.
     process_image exact_mean 50 ''eng'' (Inr (ocr_data_of [tok ''cat'' 70, tok ''dog'' 55])) = Some r1
   \<and> process_image exact_mean 60 ''eng'' (Inr (ocr_data_of [tok ''cat'' 70, tok ''dog'' 55])) = Some r2
   \<and> bounding_boxes r1 = Some [tok ''cat'' 70, tok ''dog'' 55]
   \<and> bounding_boxes r2 = Some [tok ''cat'' 70]
   \<and> subseq [tok ''cat'' 70] [tok ''cat'' 70, tok ''dog'' 55]
   \<and> ocr_text r2 = ''cat'')"
  using process_image_threshold_monotone
    [where np_mean = exact_mean and ?t1.0 = 50 and ?t2.0 = 60 and lang = "''eng''"
       and toks = "[tok ''cat'' 70, tok ''dog'' 55]"]
  by (simp add: process_image_of_tokens retained_def tok_def)

section \<open>Properties of the PDF extractor\<close>

lemma run_workers_lookup:
  "run_workers np_mean t lang tasks sched completed i =
     (if i \<in> set sched then
        (case map_of tasks i of
           None \<Rightarrow> completed i
         | Some img \<Rightarrow> Some (process_pdf_page np_mean t lang (page_ocr img) i))
      else completed i)"
  by (induction sched arbitrary: completed) (auto split: option.splits)

lemma collect_results_completed:
  "(\<And>i img. (i, img) \<in> set tasks \<Longrightarrow>
       completed i = Some (process_pdf_page np_mean t lang (page_ocr img) i)) \<Longrightarrow>
   collect_results completed (map fst tasks) acc =
     Some (acc @ map (\<lambda>(i, r). r\<lparr>page_number := Some i\<rparr>)
       (concat (map (\<lambda>(i, img). case process_image np_mean t lang (page_ocr img) of
                                  None \<Rightarrow> [] | Some r \<Rightarrow> [(i, r)]) tasks)))"
proof (induction tasks arbitrary: acc)
  case Nil
  then show ?case by simp
next
  case (Cons p tasks)
  obtain i img where p: "p = (i, img)" by (cases p)
  have here: "completed i = Some (process_pdf_page np_mean t lang (page_ocr img) i)"
    using Cons.prems [of i img] by (simp add: p)
  have rest: "collect_results completed (map fst tasks) acc' =
     Some (acc' @ map (\<lambda>(i, r). r\<lparr>page_number := Some i\<rparr>)
       (concat (map (\<lambda>(i, img). case process_image np_mean t lang (page_ocr img) of
                                  None \<Rightarrow> [] | Some r \<Rightarrow> [(i, r)]) tasks)))" for acc'
    by (rule Cons.IH) (simp add: Cons.prems)
  show ?case
    by (cases "process_image np_mean t lang (page_ocr img)")
       (simp_all add: p here rest process_pdf_page_def)
qed

lemma successful_pages_increasing:
  "sorted_wrt (<) (map fst (successful_pages np_mean t lang n images))
   \<and> (\<forall>j \<in> set (map fst (successful_pages np_mean t lang n images)). n \<le> j)"
proof (induction images arbitrary: n)
  case Nil
  then show ?case by (simp add: successful_pages_def)
next
  case (Cons img images)
  have unfold: "successful_pages np_mean t lang n (img # images) =
      (case process_image np_mean t lang (page_ocr img) of None \<Rightarrow> [] | Some r \<Rightarrow> [(n, r)])
      @ successful_pages np_mean t lang (Suc n) images"
    by (simp add: successful_pages_def)
  from Cons.IH [of "Suc n"] show ?case
    unfolding unfold
    by (cases "process_image np_mean t lang (page_ocr img)") (auto simp: less_eq_Suc_le dest: Suc_leD)
qed

lemma process_pdf_complete_schedule:
  assumes sched: "\<forall>i < length images. i \<in> set sched"
    and saved: "\<forall>img \<in> set images. save_error img = None"
  shows "process_pdf np_mean t lang (Inr images) sched =
     Some (map (\<lambda>(i, r). r\<lparr>page_number := Some i\<rparr>) (successful_pages np_mean t lang 0 images))"
proof -
  let ?tasks = "enumerate 0 images"
  let ?completed = "run_workers np_mean t lang ?tasks sched Map.empty"
  have "?completed i = Some (process_pdf_page np_mean t lang (page_ocr img) i)"
    if mem: "(i, img) \<in> set ?tasks" for i img
  proof -
    have "i < length images" using mem by (simp add: in_set_enumerate_eq)
    then have "i \<in> set sched" using sched by simp
    moreover have "map_of ?tasks i = Some img"
      using mem by (intro map_of_is_SomeI) simp_all
    ultimately show ?thesis by (simp add: run_workers_lookup)
  qed
  then have "collect_results ?completed (map fst ?tasks) [] =
     Some ([] @ map (\<lambda>(i, r). r\<lparr>page_number := Some i\<rparr>) (successful_pages np_mean t lang 0 images))"
    unfolding successful_pages_def by (rule collect_results_completed)
  moreover have "\<not> list_ex (\<lambda>img. save_error img \<noteq> None) images"
    using saved by (simp add: list_ex_iff)
  ultimately show ?thesis
    by (simp add: process_pdf_def Let_def)
qed

text \<open>C3. For a PDF whose pages were rasterised and saved, and for every order in which the
  parallel workers complete, \<open>process_pdf\<close> returns the results of exactly the pages on
  which the page extractor succeeded, in strictly increasing page order; so the
  concatenation of their texts is the concatenation of the successful pages' texts in
  page order. Failed pages are skipped, and a document with no successful page gives
  the empty list, not an error.\<close>

theorem process_pdf_page_order:
  assumes "\<forall>i < length images. i \<in> set sched"
    and "\<forall>img \<in> set images. save_error img = None"
  shows "\<exists>results.
      process_pdf np_mean t lang (Inr images) sched = Some results
    \<and> map ocr_text results = map (\<lambda>(i, r). ocr_text r) (successful_pages np_mean t lang 0 images)
    \<and> concat (map ocr_text results) =
        concat (map (\<lambda>(i, r). ocr_text r) (successful_pages np_mean t lang 0 images))
    \<and> map page_number results = map (\<lambda>(i, r). Some i) (successful_pages np_mean t lang 0 images)
    \<and> sorted_wrt (<) (map fst (successful_pages np_mean t lang 0 images))
    \<and> (successful_pages np_mean t lang 0 images = [] \<longrightarrow> results = [])"
proof -
  let ?ok = "successful_pages np_mean t lang 0 images"
  let ?results = "map (\<lambda>(i, r). r\<lparr>page_number := Some i\<rparr>) ?ok"
  have run: "process_pdf np_mean t lang (Inr images) sched = Some ?results"
    using assms by (rule process_pdf_complete_schedule)
  have texts: "map ocr_text ?results = map (\<lambda>(i, r). ocr_text r) ?ok"
    by (simp add: case_prod_unfold)
  have numbers: "map page_number ?results = map (\<lambda>(i, r). Some i) ?ok"
    by (simp add: case_prod_unfold)
  have sorted: "sorted_wrt (<) (map fst ?ok)"
    using successful_pages_increasing [of np_mean t lang 0 images] by simp
  have conc: "concat (map ocr_text ?results) = concat (map (\<lambda>(i, r). ocr_text r) ?ok)"
    using texts by (rule arg_cong)
  have none: "?ok = [] \<longrightarrow> ?results = []"
    by simp
  from run texts conc numbers sorted none show ?thesis
    by blast
qed

theorem process_pdf_page_order_witness:
  "\<exists>results.
      process_pdf exact_mean 60 ''eng''
        (Inr [page_of [tok ''one'' 90], failed_page, page_of [tok ''three'' 80]]) [2, 0, 1]
        = Some results
    \<and> map ocr_text results = [''one'', ''three'']
    \<and> map page_number results = [Some 0, Some 2]"
proof -
  let ?images = "[page_of [tok ''one'' 90], failed_page, page_of [tok ''three'' 80]]"
  have h1: "\<forall>i < length ?images. i \<in> set [2, 0, 1 :: nat]"
    by (auto simp: less_Suc_eq)
  have h2: "\<forall>img \<in> set ?images. save_error img = None"
    by (simp add: page_of_def failed_page_def)
  have ok: "successful_pages exact_mean 60 ''eng'' 0 ?images =
      [(0, the (process_image exact_mean 60 ''eng'' (Inr (ocr_data_of [tok ''one'' 90])))),
       (Suc (Suc 0), the (process_image exact_mean 60 ''eng'' (Inr (ocr_data_of [tok ''three'' 80]))))]"
    by (simp add: successful_pages_def page_of_def failed_page_def process_image_of_tokens)
       (simp add: process_image_def)
  from process_pdf_page_order
    [OF h1 h2, where np_mean = exact_mean and t = 60 and lang = "''eng''"]
  obtain results where run: "process_pdf exact_mean 60 ''eng'' (Inr ?images) [2, 0, 1] = Some results"
    and texts: "map ocr_text results =
        map (\<lambda>(i, r). ocr_text r) (successful_pages exact_mean 60 ''eng'' 0 ?images)"
    and numbers: "map page_number results =
        map (\<lambda>(i, r). Some i) (successful_pages exact_mean 60 ''eng'' 0 ?images)"
    by blast
  have texts': "map ocr_text results = [''one'', ''three'']"
    unfolding texts ok by (simp add: process_image_of_tokens retained_def tok_def)
  have numbers': "map page_number results = [Some 0, Some 2]"
    unfolding numbers ok by (simp add: numeral_2_eq_2)
  from run texts' numbers' show ?thesis
    by (intro exI [of _ results] conjI)
qed

section \<open>Properties of the file extractor\<close>

text \<open>C6, on the code. The OCR path of \<open>process_file\<close> is a call that always raises,
  so no file is ever extracted by OCR: an image gives \<open>None\<close> whatever it shows, and a
  PDF is read from its text layer alone. For a PDF the text layer's pages are joined by
  newlines; a missing text layer, or a page without text, gives \<open>None\<close>.\<close>

theorem process_file_never_runs_ocr:
  "process_file ''photo.png'' layer = None
   \<and> process_file ''scan.PDF'' (Inr [Some ''one'', Some ''two'']) =
       Some (''one'' @ [CHR 0x0A] @ ''two'')
   \<and> process_file ''scan.pdf'' (Inr []) = Some []
   \<and> process_file ''scan.pdf'' (Inr [Some ''one'', None]) = None
   \<and> process_file ''scan.pdf'' (Inl (Exception ''damaged file'')) = None"
proof -
  have png: "\<not> endswith (lower ''photo.png'') ''.pdf''"
    by code_simp
  have upper: "endswith (lower ''scan.PDF'') ''.pdf''"
    by code_simp
  have pdf: "endswith (lower ''scan.pdf'') ''.pdf''"
    by code_simp
  show ?thesis
    by (simp add: process_file_def super_process_file_def png upper pdf
        extract_text_layer_def join_pages_def)
qed

section \<open>Properties of the process command\<close>

lemma scan_dir_result:
  "scan_dir fs sp entries (cur, todo) = Inr (cur', todo') \<Longrightarrow>
   todo' = todo @ filter (\<lambda>f. is_file fs f = Inr True \<and> sp f) entries
   \<and> cur' = cur \<union> set (filter (\<lambda>f. is_file fs f = Inr True \<and> sp f) entries)"
proof (induction entries arbitrary: cur todo)
  case Nil
  then show ?case by simp
next
  case (Cons f entries)
  show ?case
  proof (cases "is_file fs f")
    case (Inl e)
    with Cons.prems show ?thesis by simp
  next
    case (Inr b)
    show ?thesis
    proof (cases "b \<and> sp f")
      case True
      with Cons.prems Inr
      have "scan_dir fs sp entries (insert f cur, todo @ [f]) = Inr (cur', todo')"
        by simp
      from Cons.IH [OF this] True Inr show ?thesis by auto
    next
      case False
      with Cons.prems Inr
      have "scan_dir fs sp entries (cur, todo) = Inr (cur', todo')"
        by (simp split: if_splits)
      from Cons.IH [OF this] False Inr show ?thesis by auto
    qed
  qed
qed

lemma scan_paths_result:
  "scan_paths fs sp recursive paths (cur, todo) = Inr (cur', todo') \<Longrightarrow>
   todo' = todo @ concat (map (candidates fs sp recursive) paths)
   \<and> cur' = cur \<union> set (concat (map (candidates fs sp recursive) paths))"
proof (induction paths arbitrary: cur todo)
  case Nil
  then show ?case by simp
next
  case (Cons p paths)
  let ?c = "candidates fs sp recursive p"
  have "\<exists>cur1 todo1. scan_paths fs sp recursive paths (cur1, todo1) = Inr (cur', todo')
      \<and> todo1 = todo @ ?c \<and> cur1 = cur \<union> set ?c"
  proof (cases "is_file fs p")
    case (Inl e)
    with Cons.prems show ?thesis by simp
  next
    case f: (Inr f)
    show ?thesis
    proof (cases f)
      case True
      with f Cons.prems show ?thesis
        by (auto simp: candidates_def split: if_splits)
    next
      case False
      note nf = this
      show ?thesis
      proof (cases "is_dir fs p")
        case (Inl e)
        with f nf Cons.prems show ?thesis by simp
      next
        case d: (Inr d)
        show ?thesis
        proof (cases d)
          case False
          with f nf d Cons.prems show ?thesis
            by (simp add: candidates_def)
        next
          case True
          show ?thesis
          proof (cases "glob fs p (glob_pattern recursive)")
            case (Inl e)
            with f nf d True Cons.prems show ?thesis by simp
          next
            case g: (Inr entries)
            show ?thesis
            proof (cases "scan_dir fs sp entries (cur, todo)")
              case (Inl e)
              with f nf d True g Cons.prems show ?thesis by simp
            next
              case (Inr acc)
              obtain cur1 todo1 where acc: "acc = (cur1, todo1)" by (cases acc)
              from scan_dir_result [OF Inr [unfolded acc]]
              have "todo1 = todo @ ?c \<and> cur1 = cur \<union> set ?c"
                using f nf d True g by (simp add: candidates_def)
              moreover have "scan_paths fs sp recursive paths (cur1, todo1) = Inr (cur', todo')"
                using f nf d True g Inr acc Cons.prems by simp
              ultimately show ?thesis by blast
            qed
          qed
        qed
      qed
    qed
  qed
  then obtain cur1 todo1
    where rest: "scan_paths fs sp recursive paths (cur1, todo1) = Inr (cur', todo')"
      and todo1: "todo1 = todo @ ?c" and cur1: "cur1 = cur \<union> set ?c"
    by blast
  from Cons.IH [OF rest] show ?case
    by (auto simp: todo1 cur1)
qed

lemma query_previous_result:
  "query_previous fs a s recursive paths prev = Inr prev' \<Longrightarrow>
   prev' = prev \<union> (\<Union>p \<in> set paths. set (get_documents_in_directory a s (base_path fs p) recursive))"
proof (induction paths arbitrary: prev)
  case Nil
  then show ?case by simp
next
  case (Cons p paths)
  show ?case
  proof (cases "is_dir fs p")
    case (Inl e)
    with Cons.prems show ?thesis by simp
  next
    case (Inr d)
    with Cons.prems
    have "query_previous fs a s recursive paths
        (prev \<union> set (get_documents_in_directory a s (base_path fs p) recursive)) = Inr prev'"
      by (cases d) (simp_all add: base_path_def Let_def)
    from Cons.IH [OF this] show ?thesis by auto
  qed
qed

lemma process_plan_result:
  assumes "process_plan fs sp a s paths recursive = Inr plan"
  shows "to_process plan = concat (map (candidates fs sp recursive) paths)"
    and "current plan = set (to_process plan)"
    and "previous plan =
      (\<Union>p \<in> set paths. set (get_documents_in_directory a s (base_path fs p) recursive))"
    and "to_retire plan = previous plan - current plan"
proof -
  from assms obtain cur todo prev
    where scan: "scan_paths fs sp recursive paths ({}, []) = Inr (cur, todo)"
      and query: "query_previous fs a s recursive paths {} = Inr prev"
      and plan: "plan = \<lparr>to_process = todo, to_retire = prev - cur, current = cur, previous = prev\<rparr>"
    by (auto simp: process_plan_def split: sum.splits)
  from scan_paths_result [OF scan] query_previous_result [OF query]
  show "to_process plan = concat (map (candidates fs sp recursive) paths)"
    and "current plan = set (to_process plan)"
    and "previous plan =
      (\<Union>p \<in> set paths. set (get_documents_in_directory a s (base_path fs p) recursive))"
    and "to_retire plan = previous plan - current plan"
    by (simp_all add: plan)
qed

lemma remove_all_calls:
  "remove_all a files s calls = (None, s', calls') \<Longrightarrow>
   calls' = calls @ map RemoveDocument files"
proof (induction files arbitrary: s calls)
  case Nil
  then show ?case by simp
next
  case (Cons f files)
  obtain r s1 where step: "remove_document a f s = (r, s1)"
    by (cases "remove_document a f s")
  show ?case
  proof (cases r)
    case None
    with Cons.prems step
    have "remove_all a files s1 (calls @ [RemoveDocument f]) = (None, s', calls')"
      by simp
    from Cons.IH [OF this] show ?thesis by simp
  next
    case (Some e)
    with Cons.prems step show ?thesis by simp
  qed
qed

lemma ingest_all_calls:
  "ingest_all a files s calls = (None, s', calls') \<Longrightarrow>
   calls' = calls @ map IngestFile files"
proof (induction files arbitrary: s calls)
  case Nil
  then show ?case by simp
next
  case (Cons f files)
  obtain r s1 where step: "ingest_file a f s = (r, s1)"
    by (cases "ingest_file a f s")
  show ?case
  proof (cases r)
    case None
    with Cons.prems step
    have "ingest_all a files s1 (calls @ [IngestFile f]) = (None, s', calls')"
      by simp
    from Cons.IH [OF this] show ?thesis by simp
  next
    case (Some e)
    with Cons.prems step show ?thesis by simp
  qed
qed

lemma process_completed_calls:
  assumes "process fs sp a iter paths recursive dry_run s = (Completed, s', calls)"
  shows "\<exists>plan. process_plan fs sp a s paths recursive = Inr plan
    \<and> calls = map RemoveDocument (iter (to_retire plan)) @ map IngestFile (to_process plan)"
proof (cases "process_plan fs sp a s paths recursive")
  case (Inl e)
  with assms show ?thesis by (simp add: process_def)
next
  case (Inr plan)
  from assms Inr have run: "\<not> (to_process plan = [] \<and> to_retire plan = {})" "\<not> dry_run"
    by (auto simp: process_def split: if_splits)
  obtain r1 s1 calls1
    where rm: "remove_all a (iter (to_retire plan)) s [] = (r1, s1, calls1)"
    by (cases "remove_all a (iter (to_retire plan)) s []")
  obtain r2 s2 calls2
    where ing: "ingest_all a (to_process plan) s1 calls1 = (r2, s2, calls2)"
    by (cases "ingest_all a (to_process plan) s1 calls1")
  from assms Inr run rm have r1: "r1 = None"
    by (cases r1) (simp_all add: process_def)
  from assms Inr run rm ing r1 have r2: "r2 = None" and calls: "calls = calls2"
    by (cases r2; simp add: process_def)+
  from remove_all_calls [OF rm [unfolded r1]] ingest_all_calls [OF ing [unfolded r2]]
  have "calls = map RemoveDocument (iter (to_retire plan)) @ map IngestFile (to_process plan)"
    by (simp add: calls)
  with Inr show ?thesis by blast
qed

lemma example_plan_docs:
  "process_plan example_fs accept_all example_archivist [''docs/a.pdf'', ''docs/c.txt'']
     [''docs''] False =
   Inr \<lparr>to_process = [''docs/a.pdf'', ''docs/b.png''],
        to_retire = {''docs/c.txt''},
        current = {''docs/a.pdf'', ''docs/b.png''},
        previous = {''docs/a.pdf'', ''docs/c.txt''}\<rparr>"
  by (auto simp: process_plan_def example_fs_def example_archivist_def accept_all_def
      glob_pattern_def)

text \<open>C1. Whenever the planning stage of \<open>process\<close> succeeds, the set of the paths to
  process is the set of current files, which is the union of the candidates of all roots;
  the paths to retire are the previously recorded paths minus the current ones; a current
  file that is already recorded is still to be processed and is not retired.\<close>

theorem plan_to_process_is_current:
  assumes "process_plan fs sp a s paths recursive = Inr plan"
  shows "set (to_process plan) = current plan
    \<and> current plan = (\<Union>r \<in> set paths. set (candidates fs sp recursive r))
    \<and> to_retire plan = previous plan - current plan
    \<and> (\<forall>f \<in> current plan \<inter> previous plan. f \<in> set (to_process plan) \<and> f \<notin> to_retire plan)"
  using process_plan_result [OF assms] by auto

theorem plan_to_process_is_current_witness:
  "\<exists>plan.
     process_plan example_fs accept_all example_archivist [''docs/a.pdf'', ''docs/c.txt'']
       [''docs''] False = Inr plan
   \<and> set (to_process plan) = {''docs/a.pdf'', ''docs/b.png''}
   \<and> to_retire plan = {''docs/c.txt''}
   \<and> ''docs/a.pdf'' \<in> previous plan \<and> ''docs/a.pdf'' \<in> set (to_process plan)"
proof -
  let ?plan = "\<lparr>to_process = [''docs/a.pdf'', ''docs/b.png''],
        to_retire = {''docs/c.txt''},
        current = {''docs/a.pdf'', ''docs/b.png''},
        previous = {''docs/a.pdf'', ''docs/c.txt''}\<rparr>"
  from plan_to_process_is_current [OF example_plan_docs]
  have cur: "set (to_process ?plan) = current ?plan"
    and ret: "to_retire ?plan = previous ?plan - current ?plan"
    by blast+
  have 1: "set (to_process ?plan) = {''docs/a.pdf'', ''docs/b.png''}"
    unfolding cur by simp
  have 2: "to_retire ?plan = {''docs/c.txt''}"
    unfolding ret by auto
  have 3: "''docs/a.pdf'' \<in> previous ?plan" "''docs/a.pdf'' \<in> set (to_process ?plan)"
    unfolding cur by simp_all
  from example_plan_docs 1 2 3 show ?thesis
    by (intro exI [of _ ?plan] conjI)
qed

text \<open>C4. Whenever the planning stage of \<open>process\<close> succeeds, no path is both to be
  processed and to be retired.\<close>

theorem plan_process_retire_disjoint:
  assumes "process_plan fs sp a s paths recursive = Inr plan"
  shows "set (to_process plan) \<inter> to_retire plan = {}"
  using process_plan_result [OF assms] by auto

theorem plan_process_retire_disjoint_witness:
  "\<exists>plan.
     process_plan example_fs accept_all example_archivist [''docs/a.pdf'', ''docs/c.txt'']
       [''docs''] False = Inr plan
   \<and> set (to_process plan) \<inter> to_retire plan = {}"
  using plan_process_retire_disjoint [OF example_plan_docs] example_plan_docs
  by (intro exI conjI)

lemma scan_dir_fails:
  "list_ex (\<lambda>f. isl (is_file fs f)) entries \<Longrightarrow> isl (scan_dir fs sp entries acc)"
proof (induction entries arbitrary: acc)
  case Nil
  then show ?case by simp
next
  case (Cons f entries)
  obtain cur todo where acc: "acc = (cur, todo)" by (cases acc)
  show ?case
  proof (cases "is_file fs f")
    case (Inl e)
    then show ?thesis by (simp add: acc)
  next
    case (Inr b)
    with Cons.prems have "list_ex (\<lambda>f. isl (is_file fs f)) entries" by simp
    then have "isl (scan_dir fs sp entries acc')" for acc'
      by (rule Cons.IH)
    with Inr show ?thesis by (simp add: acc)
  qed
qed

lemma scan_paths_fails:
  "\<exists>r \<in> set paths. enumeration_fails fs recursive r \<Longrightarrow>
   isl (scan_paths fs sp recursive paths acc)"
proof (induction paths arbitrary: acc)
  case Nil
  then show ?case by simp
next
  case (Cons p paths)
  obtain cur todo where acc: "acc = (cur, todo)" by (cases acc)
  show ?case
  proof (cases "enumeration_fails fs recursive p")
    case True
    have no: "scan_dir fs sp entries (cur, todo) \<noteq> Inr r"
      if "list_ex (\<lambda>f. isl (is_file fs f)) entries" for entries r
      using scan_dir_fails [OF that, of sp "(cur, todo)"] by auto
    from True show ?thesis
      by (auto simp: enumeration_fails_def acc no split: sum.splits)
  next
    case False
    with Cons.prems have "\<exists>r \<in> set paths. enumeration_fails fs recursive r" by simp
    then have "isl (scan_paths fs sp recursive paths acc')" for acc'
      by (rule Cons.IH)
    then show ?thesis
      by (auto simp: acc split: sum.splits)
  qed
qed

lemma process_aborts_on_plan_error:
  "isl (process_plan fs sp a s paths recursive) \<Longrightarrow>
   process fs sp a iter paths recursive dry_run s = (Abort, s, [])"
  by (cases "process_plan fs sp a s paths recursive") (simp_all add: process_def)

lemma example_plan_file_root:
  "process_plan example_fs accept_all example_archivist [''docs/a.pdf'', ''docs/b.png'']
     [''docs/a.pdf''] False =
   Inr \<lparr>to_process = [''docs/a.pdf''],
        to_retire = {''docs/b.png''},
        current = {''docs/a.pdf''},
        previous = {''docs/a.pdf'', ''docs/b.png''}\<rparr>"
  by (auto simp: process_plan_def example_fs_def example_archivist_def accept_all_def)

text \<open>C5, on the code. For the single root \<open>docs/a.pdf\<close>, a file, the store records
  nothing under the root itself. The code queries the parent directory \<open>docs\<close>
  instead, takes the sibling \<open>docs/b.png\<close>, recorded there and still a file on disk,
  for a deleted file, and removes it from the archive.\<close>

theorem file_root_retires_sibling_on_disk:
  "get_documents_in_directory example_archivist [''docs/a.pdf'', ''docs/b.png'']
     ''docs/a.pdf'' False = []
   \<and> is_file example_fs ''docs/b.png'' = Inr True
   \<and> process_plan example_fs accept_all example_archivist [''docs/a.pdf'', ''docs/b.png'']
       [''docs/a.pdf''] False =
     Inr \<lparr>to_process = [''docs/a.pdf''],
          to_retire = {''docs/b.png''},
          current = {''docs/a.pdf''},
          previous = {''docs/a.pdf'', ''docs/b.png''}\<rparr>
   \<and> process example_fs accept_all example_archivist example_iter [''docs/a.pdf'']
       False False [''docs/a.pdf'', ''docs/b.png''] =
     (Completed, [''docs/a.pdf''],
      [RemoveDocument ''docs/b.png'', IngestFile ''docs/a.pdf''])"
proof -
  have query: "get_documents_in_directory example_archivist [''docs/a.pdf'', ''docs/b.png'']
     ''docs/a.pdf'' False = []"
    by (simp add: example_archivist_def example_fs_def)
  have on_disk: "is_file example_fs ''docs/b.png'' = Inr True"
    by (simp add: example_fs_def)
  have run: "process example_fs accept_all example_archivist example_iter [''docs/a.pdf'']
       False False [''docs/a.pdf'', ''docs/b.png''] =
     (Completed, [''docs/a.pdf''],
      [RemoveDocument ''docs/b.png'', IngestFile ''docs/a.pdf''])"
    by (simp add: process_def example_plan_file_root)
       (simp add: example_archivist_def example_iter_def)
  from query on_disk example_plan_file_root run show ?thesis
    by (intro conjI)
qed

text \<open>C7, as the code has it. When the enumeration of any one root raises, the whole
  command ends with \<open>Abort\<close>: nothing is ingested or retired for any root, and the store
  is unchanged.\<close>

theorem enumeration_failure_aborts_all:
  assumes "\<exists>r \<in> set paths. enumeration_fails fs recursive r"
  shows "process fs sp a iter paths recursive dry_run s = (Abort, s, [])"
proof -
  have "isl (scan_paths fs sp recursive paths ({}, []))"
    using assms by (rule scan_paths_fails)
  then have "isl (process_plan fs sp a s paths recursive)"
    by (cases "scan_paths fs sp recursive paths ({}, [])") (simp_all add: process_plan_def)
  then show ?thesis
    by (rule process_aborts_on_plan_error)
qed

lemma example_locked_fails: "enumeration_fails example_fs False ''locked''"
  by (simp add: enumeration_fails_def example_fs_def)

theorem enumeration_failure_aborts_all_witness:
  "(\<exists>r \<in> set [''locked'', ''docs'']. enumeration_fails example_fs False r)
   \<and> process example_fs accept_all example_archivist example_iter [''locked'', ''docs'']
       False False [] = (Abort, [], [])"
proof -
  have h: "\<exists>r \<in> set [''locked'', ''docs'']. enumeration_fails example_fs False r"
    using example_locked_fails by simp
  from h enumeration_failure_aborts_all [OF h] show ?thesis
    by (intro conjI)
qed

text \<open>C7 as stated fails: the listing of the root \<open>locked\<close> raises, and the files of the
  root \<open>docs\<close>, which the command ingests when \<open>docs\<close> is the only root, are not
  ingested.\<close>

theorem enumeration_failure_isolated_counterexample:
  "process example_fs accept_all example_archivist example_iter [''locked'', ''docs'']
     False False [] = (Abort, [], [])
   \<and> process example_fs accept_all example_archivist example_iter [''docs'']
     False False [] =
       (Completed, [''docs/a.pdf'', ''docs/b.png''],
        [IngestFile ''docs/a.pdf'', IngestFile ''docs/b.png''])"
  by (simp add: process_def process_plan_def example_fs_def example_archivist_def
      accept_all_def example_iter_def glob_pattern_def)

lemma count_list_distinct:
  "distinct xs \<Longrightarrow> count_list xs x = (if x \<in> set xs then 1 else 0)"
  by (induction xs) auto

lemma count_list_concat_distinct:
  "\<forall>r \<in> set rs. distinct (c r) \<Longrightarrow>
   count_list (concat (map c rs)) x = length (filter (\<lambda>r. x \<in> set (c r)) rs)"
  by (induction rs) (simp_all add: count_list_distinct)

lemma distinct_candidates:
  "\<forall>entries. glob fs r (glob_pattern recursive) = Inr entries \<longrightarrow> distinct entries \<Longrightarrow>
   distinct (candidates fs sp recursive r)"
  by (auto simp: candidates_def split: sum.splits)

lemma count_list_calls:
  "count_list (map RemoveDocument xs @ map IngestFile ys) (IngestFile f) = count_list ys f"
proof -
  have "IngestFile f \<notin> set (map RemoveDocument xs)" by auto
  then have "count_list (map RemoveDocument xs) (IngestFile f) = 0"
    by (rule count_notin)
  moreover have "count_list (map IngestFile ys) (IngestFile f) = count_list ys f"
    by (rule count_list_map_conv) (simp add: inj_def)
  ultimately show ?thesis by simp
qed

text \<open>C10. When planning succeeds and each directory listing yields a path once, a file
  occurs in the worklist as many times as there are roots (counted as listed) that cover
  it, while the set of current files holds it once; and a run of \<open>process\<close> that
  completes calls \<open>ingest_file\<close> on it that many times.\<close>

theorem overlapping_roots_repeat_ingest:
  assumes "process_plan fs sp a s paths recursive = Inr plan"
    and "\<forall>r \<in> set paths. \<forall>entries.
           glob fs r (glob_pattern recursive) = Inr entries \<longrightarrow> distinct entries"
  shows "count_list (to_process plan) f =
        length (filter (\<lambda>r. f \<in> set (candidates fs sp recursive r)) paths)
    \<and> current plan = set (to_process plan)
    \<and> (\<forall>dry_run s' calls.
          process fs sp a iter paths recursive dry_run s = (Completed, s', calls) \<longrightarrow>
          count_list calls (IngestFile f) =
            length (filter (\<lambda>r. f \<in> set (candidates fs sp recursive r)) paths))"
proof -
  let ?k = "length (filter (\<lambda>r. f \<in> set (candidates fs sp recursive r)) paths)"
  have "\<forall>r \<in> set paths. distinct (candidates fs sp recursive r)"
    using assms(2) by (auto intro: distinct_candidates)
  then have "count_list (concat (map (candidates fs sp recursive) paths)) f = ?k"
    by (rule count_list_concat_distinct)
  then have count: "count_list (to_process plan) f = ?k"
    using process_plan_result(1) [OF assms(1)] by simp
  have cur: "current plan = set (to_process plan)"
    by (rule process_plan_result(2) [OF assms(1)])
  have "count_list calls (IngestFile f) = ?k"
    if run: "process fs sp a iter paths recursive dry_run s = (Completed, s', calls)"
    for dry_run s' calls
  proof -
    from process_completed_calls [OF run] assms(1)
    have "calls = map RemoveDocument (iter (to_retire plan)) @ map IngestFile (to_process plan)"
      by simp
    then show ?thesis
      using count by (simp only: count_list_calls)
  qed
  with count cur show ?thesis by blast
qed

lemma example_plan_overlap:
  "process_plan example_fs accept_all example_archivist [] [''docs'', ''docs/a.pdf''] False =
   Inr \<lparr>to_process = [''docs/a.pdf'', ''docs/b.png'', ''docs/a.pdf''],
        to_retire = {},
        current = {''docs/a.pdf'', ''docs/b.png''},
        previous = {}\<rparr>"
  by (auto simp: process_plan_def example_fs_def example_archivist_def accept_all_def
      glob_pattern_def)

lemma example_run_overlap:
  "process example_fs accept_all example_archivist example_iter [''docs'', ''docs/a.pdf'']
     False False [] =
   (Completed, [''docs/a.pdf'', ''docs/b.png''],
    [IngestFile ''docs/a.pdf'', IngestFile ''docs/b.png'', IngestFile ''docs/a.pdf''])"
  by (simp add: process_def example_plan_overlap)
     (simp add: example_archivist_def example_iter_def)

theorem overlapping_roots_repeat_ingest_witness:
  "process_plan example_fs accept_all example_archivist [] [''docs'', ''docs/a.pdf''] False =
       Inr \<lparr>to_process = [''docs/a.pdf'', ''docs/b.png'', ''docs/a.pdf''],
            to_retire = {},
            current = {''docs/a.pdf'', ''docs/b.png''},
            previous = {}\<rparr>
   \<and> process example_fs accept_all example_archivist example_iter [''docs'', ''docs/a.pdf'']
       False False [] =
       (Completed, [''docs/a.pdf'', ''docs/b.png''],
        [IngestFile ''docs/a.pdf'', IngestFile ''docs/b.png'', IngestFile ''docs/a.pdf''])
   \<and> count_list [''docs/a.pdf'', ''docs/b.png'', ''docs/a.pdf''] ''docs/a.pdf'' = 2
   \<and> count_list
       [IngestFile ''docs/a.pdf'', IngestFile ''docs/b.png'', IngestFile ''docs/a.pdf'']
       (IngestFile ''docs/a.pdf'') = 2
   \<and> length (filter (\<lambda>r. ''docs/a.pdf'' \<in> set (candidates example_fs accept_all False r))
               [''docs'', ''docs/a.pdf'']) = 2"
proof -
  have h: "\<forall>r \<in> set [''docs'', ''docs/a.pdf'']. \<forall>entries.
      glob example_fs r (glob_pattern False) = Inr entries \<longrightarrow> distinct entries"
    by (auto simp: example_fs_def)
  note t = overlapping_roots_repeat_ingest
    [OF example_plan_overlap h, of "''docs/a.pdf''" example_iter]
  from t have 1: "count_list [''docs/a.pdf'', ''docs/b.png'', ''docs/a.pdf''] ''docs/a.pdf'' =
     length (filter (\<lambda>r. ''docs/a.pdf'' \<in> set (candidates example_fs accept_all False r))
               [''docs'', ''docs/a.pdf''])"
    by simp
  from t example_run_overlap
  have 2: "count_list
       [IngestFile ''docs/a.pdf'', IngestFile ''docs/b.png'', IngestFile ''docs/a.pdf'']
       (IngestFile ''docs/a.pdf'') =
     length (filter (\<lambda>r. ''docs/a.pdf'' \<in> set (candidates example_fs accept_all False r))
               [''docs'', ''docs/a.pdf''])"
    by blast
  have 3: "length (filter (\<lambda>r. ''docs/a.pdf'' \<in> set (candidates example_fs accept_all False r))
               [''docs'', ''docs/a.pdf'']) = 2"
    unfolding 1 [symmetric] by simp
  have 4: "count_list [''docs/a.pdf'', ''docs/b.png'', ''docs/a.pdf''] ''docs/a.pdf'' = 2"
    unfolding 1 3 by (rule refl)
  have 5: "count_list
       [IngestFile ''docs/a.pdf'', IngestFile ''docs/b.png'', IngestFile ''docs/a.pdf'']
       (IngestFile ''docs/a.pdf'') = 2"
    unfolding 2 3 by (rule refl)
  from example_plan_overlap example_run_overlap 4 5 3 show ?thesis
    by (intro conjI)
qed

section \<open>Properties of the watch handler\<close>

text \<open>C8, on the code. An event for a directory makes no call, whatever its type. A
  created or modified event for a file is dropped when its path matches an exclusion
  pattern and calls \<open>ingest_file\<close> otherwise. A deleted event for a file calls
  \<open>remove_document\<close> whether or not its path matches an exclusion pattern: here the
  path \<open>notes.tmp\<close> matches the pattern \<open>*.tmp\<close> and is retired all the same.\<close>

theorem handle_event_deleted_ignores_exclusions:
  "any_match example_match ''notes.tmp'' [''*.tmp''] = Inr True
   \<and> snd (handle_event example_archivist example_match [''*.tmp'']
        \<lparr>event_type = ''deleted'', event_path = ''notes.tmp'', is_directory = False\<rparr>
        [''notes.tmp'']) = [RemoveDocument ''notes.tmp'']
   \<and> snd (handle_event example_archivist example_match [''*.tmp'']
        \<lparr>event_type = ''created'', event_path = ''notes.tmp'', is_directory = False\<rparr>
        [''notes.tmp'']) = []
   \<and> snd (handle_event example_archivist example_match [''*.tmp'']
        \<lparr>event_type = ''deleted'', event_path = ''notes.tmp'', is_directory = True\<rparr>
        [''notes.tmp'']) = []"
  by (simp add: handle_event_def example_match_def endswith_def)

end
